theory Spec2Isabelle
  imports Complex_Main
begin

section \<open>JavaScript numbers\<close>

text \<open>
  The coordinates and the radius are JavaScript numbers. A number is modelled as a real
  (the finite doubles, without rounding or overflow) or one of the three special values
  \<open>Infinity\<close>, \<open>-Infinity\<close> and \<open>NaN\<close>, with the IEEE rules of subtraction, of
  \<open>Math.hypot\<close> and of \<open>\<le>\<close> on the special values.
\<close>

datatype jsnum = Fin real | PInf | NInf | NaN

fun isFinite :: "jsnum \<Rightarrow> bool" where
  "isFinite (Fin a) = True"
| "isFinite PInf = False"
| "isFinite NInf = False"
| "isFinite NaN = False"


text \<open>\<open>a - b\<close>: NaN is contagious, and an infinity minus itself is NaN.\<close>

fun jsub :: "jsnum \<Rightarrow> jsnum \<Rightarrow> jsnum" where
  "jsub (Fin a) (Fin b) = Fin (a - b)"
| "jsub (Fin a) PInf = NInf"
| "jsub (Fin a) NInf = PInf"
| "jsub PInf (Fin b) = PInf"
| "jsub PInf NInf = PInf"
| "jsub PInf PInf = NaN"
| "jsub NInf (Fin b) = NInf"
| "jsub NInf PInf = NInf"
| "jsub NInf NInf = NaN"
| "jsub NaN b = NaN"
| "jsub a NaN = NaN"

text \<open>
  \<open>Math.hypot(a, b)\<close>: \<open>Infinity\<close> when an argument is infinite (also when the other
  one is NaN), else NaN when an argument is NaN, else the square root of the sum of the
  squares.
\<close>

fun hypot :: "jsnum \<Rightarrow> jsnum \<Rightarrow> jsnum" where
  "hypot (Fin a) (Fin b) = Fin (sqrt (a\<^sup>2 + b\<^sup>2))"
| "hypot PInf b = PInf"
| "hypot NInf b = PInf"
| "hypot a PInf = PInf"
| "hypot a NInf = PInf"
| "hypot NaN b = NaN"
| "hypot a NaN = NaN"

text \<open>\<open>a <= b\<close>: false as soon as an operand is NaN.\<close>

fun jle :: "jsnum \<Rightarrow> jsnum \<Rightarrow> bool" where
  "jle (Fin a) (Fin b) = (a \<le> b)"
| "jle NaN b = False"
| "jle a NaN = False"
| "jle NInf b = True"
| "jle a PInf = True"
| "jle PInf b = False"
| "jle a NInf = False"

section \<open>Points, circles and the store\<close>

text \<open>
  A point is an object \<open>{ x, y }\<close>. The arrays of the program hold references to such
  objects and \<open>indexOf\<close> compares references, so an array is a list of references and
  the objects live in a store. The program never writes to a point.
\<close>

datatype point = Point (point_x: jsnum) (point_y: jsnum)

type_synonym ref = nat

type_synonym store = "ref \<Rightarrow> point"

record circle =
  center :: ref
  radius :: jsnum
  points :: "ref list"

datatype error = TypeError | ProcessExit nat

section \<open>computeMinimumCircles\<close>

text \<open>\<open>Math.hypot(point.x - center.x, point.y - center.y)\<close>\<close>

definition distance :: "store \<Rightarrow> ref \<Rightarrow> ref \<Rightarrow> jsnum" where
  "distance h pt c =
     hypot (jsub (point_x (h pt)) (point_x (h c))) (jsub (point_y (h pt)) (point_y (h c)))"

text \<open>The inner loop over \<open>j\<close>: the uncovered points with \<open>distance <= maxRadius\<close>, in order.\<close>

definition coveredPoints :: "store \<Rightarrow> jsnum \<Rightarrow> ref list \<Rightarrow> ref \<Rightarrow> ref list" where
  "coveredPoints h maxRadius uncoveredPoints c =
     filter (\<lambda>pt. jle (distance h pt c) maxRadius) uncoveredPoints"

text \<open>
  One round of the loop over \<open>i\<close>, on the state \<open>(bestCircle, maxCovered)\<close>; \<open>None\<close>
  is \<open>null\<close>.
\<close>

definition candidateStep ::
  "store \<Rightarrow> jsnum \<Rightarrow> ref list \<Rightarrow> circle option \<times> nat \<Rightarrow> ref \<Rightarrow> circle option \<times> nat" where
  "candidateStep h maxRadius uncoveredPoints st c =
     (let covered = coveredPoints h maxRadius uncoveredPoints c in
      if length covered > snd st
      then (Some \<lparr>center = c, radius = maxRadius, points = covered\<rparr>, length covered)
      else st)"

text \<open>
  The loop over \<open>i\<close>, from \<open>bestCircle = null\<close> and \<open>maxCovered = 0\<close>. The array is not
  changed during the scan, so \<open>uncoveredPoints[i]\<close> for \<open>i = 0, 1, ...\<close> are the elements
  of the list from left to right.
\<close>

definition scanCandidates :: "store \<Rightarrow> jsnum \<Rightarrow> ref list \<Rightarrow> circle option \<times> nat" where
  "scanCandidates h maxRadius uncoveredPoints =
     foldl (candidateStep h maxRadius uncoveredPoints) (None, 0) uncoveredPoints"

definition bestCircleOf :: "store \<Rightarrow> jsnum \<Rightarrow> ref list \<Rightarrow> circle option" where
  "bestCircleOf h maxRadius uncoveredPoints = fst (scanCandidates h maxRadius uncoveredPoints)"

text \<open>\<open>Array.prototype.indexOf\<close> on references: the first index, or \<open>-1\<close>.\<close>

fun indexOf :: "ref list \<Rightarrow> ref \<Rightarrow> int" where
  "indexOf [] pt = -1"
| "indexOf (q # qs) pt =
     (if q = pt then 0 else (let i = indexOf qs pt in if i = -1 then -1 else i + 1))"

text \<open>\<open>splice(index, 1)\<close>\<close>

definition splice1 :: "ref list \<Rightarrow> nat \<Rightarrow> ref list" where
  "splice1 xs i = take i xs @ drop (i + 1) xs"

text \<open>The body of the \<open>forEach\<close>.\<close>

definition removePoint :: "ref list \<Rightarrow> ref \<Rightarrow> ref list" where
  "removePoint uncoveredPoints pt =
     (let index = indexOf uncoveredPoints pt in
      if index \<noteq> -1 then splice1 uncoveredPoints (nat index) else uncoveredPoints)"

definition removeCovered :: "ref list \<Rightarrow> ref list \<Rightarrow> ref list" where
  "removeCovered uncoveredPoints pts = foldl removePoint uncoveredPoints pts"

text \<open>
  Two abbreviations for the proofs: the number of uncovered points a candidate covers, and
  the circle the scan builds for a candidate.
\<close>

definition coverCount :: "store \<Rightarrow> jsnum \<Rightarrow> ref list \<Rightarrow> ref \<Rightarrow> nat" where
  "coverCount h maxRadius uncoveredPoints c = length (coveredPoints h maxRadius uncoveredPoints c)"

definition circleAt :: "store \<Rightarrow> jsnum \<Rightarrow> ref list \<Rightarrow> ref \<Rightarrow> circle" where
  "circleAt h maxRadius uncoveredPoints c =
     \<lparr>center = c, radius = maxRadius, points = coveredPoints h maxRadius uncoveredPoints c\<rparr>"

subsection \<open>What the scan and the removal compute\<close>

lemma indexOf_range: "indexOf xs pt = -1 \<or> (0 \<le> indexOf xs pt \<and> indexOf xs pt < int (length xs))"
  by (induction xs) (auto simp: Let_def)

lemma indexOf_absent: "indexOf xs pt = -1 \<longleftrightarrow> pt \<notin> set xs"
proof (induction xs)
  case Nil
  show ?case by simp
next
  case (Cons q qs)
  have "indexOf qs pt + 1 \<noteq> -1"
    using indexOf_range [of qs pt] by auto
  then show ?case using Cons by (auto simp: Let_def)
qed

lemma removePoint_remove1: "removePoint xs pt = remove1 pt xs"
proof (induction xs)
  case Nil
  show ?case by (simp add: removePoint_def)
next
  case (Cons q qs)
  show ?case
  proof (cases "q = pt")
    case True
    then show ?thesis by (simp add: removePoint_def splice1_def)
  next
    case False
    show ?thesis
    proof (cases "indexOf qs pt = -1")
      case True
      with False show ?thesis
        using indexOf_absent [of qs pt] by (simp add: removePoint_def Let_def remove1_idem)
    next
      case absent: False
      then have nonneg: "0 \<le> indexOf qs pt"
        using indexOf_range [of qs pt] by auto
      then have nat_suc: "nat (indexOf qs pt + 1) = Suc (nat (indexOf qs pt))"
        by simp
      have "indexOf qs pt + 1 \<noteq> -1"
        using nonneg by simp
      with False absent Cons show ?thesis
        by (simp add: removePoint_def Let_def splice1_def nat_suc)
    qed
  qed
qed

lemma foldl_remove1_keep:
  "x \<notin> set ys \<Longrightarrow> foldl (\<lambda>u pt. remove1 pt u) (x # xs) ys = x # foldl (\<lambda>u pt. remove1 pt u) xs ys"
  by (induction ys arbitrary: xs) auto

lemma foldl_remove1_filter:
  "foldl (\<lambda>u pt. remove1 pt u) xs (filter P xs) = filter (\<lambda>pt. \<not> P pt) xs"
proof (induction xs)
  case Nil
  show ?case by simp
next
  case (Cons a xs)
  show ?case
  proof (cases "P a")
    case True
    then show ?thesis using Cons by simp
  next
    case False
    then have "a \<notin> set (filter P xs)" by simp
    then show ?thesis using False Cons by (simp add: foldl_remove1_keep)
  qed
qed

lemma removeCovered_foldl: "removeCovered xs pts = foldl (\<lambda>u pt. remove1 pt u) xs pts"
proof -
  have "removePoint = (\<lambda>u pt. remove1 pt u)"
    by (intro ext) (rule removePoint_remove1)
  then show ?thesis by (simp add: removeCovered_def)
qed

lemma removeCovered_coveredPoints:
  "removeCovered u (coveredPoints h r u c) = filter (\<lambda>pt. \<not> jle (distance h pt c) r) u"
  by (simp add: removeCovered_foldl coveredPoints_def foldl_remove1_filter)

lemma candidateStep_alt:
  "candidateStep h r u (b, m) c =
     (if m < coverCount h r u c then (Some (circleAt h r u c), coverCount h r u c) else (b, m))"
  by (simp add: candidateStep_def coverCount_def circleAt_def Let_def)

lemma scan_foldl_char:
  "(foldl (candidateStep h r u) (b, m) cands = (b, m) \<and> (\<forall>j<length cands. coverCount h r u (cands ! j) \<le> m))
   \<or> (\<exists>i<length cands.
        foldl (candidateStep h r u) (b, m) cands = (Some (circleAt h r u (cands ! i)), coverCount h r u (cands ! i))
        \<and> m < coverCount h r u (cands ! i)
        \<and> (\<forall>j<i. coverCount h r u (cands ! j) < coverCount h r u (cands ! i))
        \<and> (\<forall>j<length cands. coverCount h r u (cands ! j) \<le> coverCount h r u (cands ! i)))"
proof (induction cands rule: rev_induct)
  case Nil
  show ?case by simp
next
  case (snoc x xs)
  let ?f = "candidateStep h r u"
  let ?n = "coverCount h r u"
  let ?res = "foldl ?f (b, m) xs"
  have step: "foldl ?f (b, m) (xs @ [x]) = ?f ?res x" by simp
  from snoc show ?case
  proof (elim disjE conjE exE)
    assume same: "?res = (b, m)" and le: "\<forall>j<length xs. ?n (xs ! j) \<le> m"
    show ?thesis
    proof (cases "m < ?n x")
      case True
      have "foldl ?f (b, m) (xs @ [x]) = (Some (circleAt h r u x), ?n x)"
        using True same by (simp add: candidateStep_alt)
      moreover have "\<forall>j<length xs. ?n (xs ! j) < ?n x"
        using le True by (meson le_less_trans)
      ultimately have "\<exists>i<length (xs @ [x]).
        foldl ?f (b, m) (xs @ [x]) = (Some (circleAt h r u ((xs @ [x]) ! i)), ?n ((xs @ [x]) ! i))
        \<and> m < ?n ((xs @ [x]) ! i)
        \<and> (\<forall>j<i. ?n ((xs @ [x]) ! j) < ?n ((xs @ [x]) ! i))
        \<and> (\<forall>j<length (xs @ [x]). ?n ((xs @ [x]) ! j) \<le> ?n ((xs @ [x]) ! i))"
        using True by (intro exI [of _ "length xs"]) (auto simp: nth_append less_Suc_eq)
      then show ?thesis by blast
    next
      case False
      have "foldl ?f (b, m) (xs @ [x]) = (b, m)"
        using False same by (simp add: candidateStep_alt)
      moreover have "\<forall>j<length (xs @ [x]). ?n ((xs @ [x]) ! j) \<le> m"
        using le False by (auto simp: nth_append less_Suc_eq)
      ultimately show ?thesis by blast
    qed
  next
    fix i
    assume i: "i < length xs"
      and res: "?res = (Some (circleAt h r u (xs ! i)), ?n (xs ! i))"
      and gt: "m < ?n (xs ! i)"
      and first: "\<forall>j<i. ?n (xs ! j) < ?n (xs ! i)"
      and best: "\<forall>j<length xs. ?n (xs ! j) \<le> ?n (xs ! i)"
    show ?thesis
    proof (cases "?n (xs ! i) < ?n x")
      case True
      have "foldl ?f (b, m) (xs @ [x]) = (Some (circleAt h r u x), ?n x)"
        using True res by (simp add: candidateStep_alt)
      moreover have "\<forall>j<length xs. ?n (xs ! j) < ?n x"
        using best True by (meson le_less_trans)
      moreover have "m < ?n x" using gt True by simp
      ultimately have "\<exists>k<length (xs @ [x]).
        foldl ?f (b, m) (xs @ [x]) = (Some (circleAt h r u ((xs @ [x]) ! k)), ?n ((xs @ [x]) ! k))
        \<and> m < ?n ((xs @ [x]) ! k)
        \<and> (\<forall>j<k. ?n ((xs @ [x]) ! j) < ?n ((xs @ [x]) ! k))
        \<and> (\<forall>j<length (xs @ [x]). ?n ((xs @ [x]) ! j) \<le> ?n ((xs @ [x]) ! k))"
        by (intro exI [of _ "length xs"]) (auto simp: nth_append less_Suc_eq)
      then show ?thesis by blast
    next
      case False
      have "foldl ?f (b, m) (xs @ [x]) = (Some (circleAt h r u (xs ! i)), ?n (xs ! i))"
        using False res by (simp add: candidateStep_alt)
      then have "\<exists>k<length (xs @ [x]).
        foldl ?f (b, m) (xs @ [x]) = (Some (circleAt h r u ((xs @ [x]) ! k)), ?n ((xs @ [x]) ! k))
        \<and> m < ?n ((xs @ [x]) ! k)
        \<and> (\<forall>j<k. ?n ((xs @ [x]) ! j) < ?n ((xs @ [x]) ! k))
        \<and> (\<forall>j<length (xs @ [x]). ?n ((xs @ [x]) ! j) \<le> ?n ((xs @ [x]) ! k))"
        using i gt first best False
        by (intro exI [of _ i]) (auto simp: nth_append less_Suc_eq)
      then show ?thesis by blast
    qed
  qed
qed

lemma bestCircleOf_Some:
  assumes "bestCircleOf h r u = Some c"
  shows "\<exists>i<length u. c = circleAt h r u (u ! i)
           \<and> 0 < coverCount h r u (u ! i)
           \<and> (\<forall>j<i. coverCount h r u (u ! j) < coverCount h r u (u ! i))
           \<and> (\<forall>j<length u. coverCount h r u (u ! j) \<le> coverCount h r u (u ! i))"
  using assms scan_foldl_char [of h r u None 0 u]
  unfolding bestCircleOf_def scanCandidates_def by auto

lemma bestCircleOf_None:
  "bestCircleOf h r u = None \<longleftrightarrow> (\<forall>pt\<in>set u. coverCount h r u pt = 0)"
  using scan_foldl_char [of h r u None 0 u]
  unfolding bestCircleOf_def scanCandidates_def by (auto simp: all_set_conv_all_nth)

lemma removeCovered_shrinks:
  assumes "bestCircleOf h r u = Some c"
  shows "length (removeCovered u (points c)) < length u"
proof -
  from bestCircleOf_Some [OF assms] obtain i where
    c: "c = circleAt h r u (u ! i)" and pos: "0 < coverCount h r u (u ! i)"
    by blast
  let ?P = "\<lambda>pt. jle (distance h pt (u ! i)) r"
  have eq: "removeCovered u (points c) = filter (\<lambda>pt. \<not> ?P pt) u"
    using c by (simp add: circleAt_def removeCovered_coveredPoints)
  have total: "length (filter ?P u) + length (filter (\<lambda>pt. \<not> ?P pt) u) = length u"
    by (rule sum_length_filter_compl)
  have "0 < length (filter ?P u)"
    using pos by (simp add: coverCount_def coveredPoints_def)
  with total show ?thesis unfolding eq by linarith
qed

subsection \<open>The outer loop\<close>

text \<open>
  The \<open>while\<close> loop on the state \<open>(uncoveredPoints, circles)\<close>. Reading
  \<open>bestCircle.points\<close> when \<open>bestCircle\<close> is still \<open>null\<close> throws a TypeError.
\<close>

function coverLoop :: "store \<Rightarrow> jsnum \<Rightarrow> ref list \<Rightarrow> circle list \<Rightarrow> error + circle list" where
  "coverLoop h maxRadius uncoveredPoints circles =
     (if length uncoveredPoints > 0
      then (case bestCircleOf h maxRadius uncoveredPoints of
              None \<Rightarrow> Inl TypeError
            | Some bestCircle \<Rightarrow>
                coverLoop h maxRadius (removeCovered uncoveredPoints (points bestCircle))
                  (circles @ [bestCircle]))
      else Inr circles)"
  by pat_completeness auto

termination
proof (relation "measure (\<lambda>(h, maxRadius, uncoveredPoints, circles). length uncoveredPoints)")
  show "wf (measure (\<lambda>(h, maxRadius, uncoveredPoints, circles). length uncoveredPoints))"
    by simp
next
  fix h :: store and maxRadius uncoveredPoints and circles :: "circle list" and bestCircle
  assume "bestCircleOf h maxRadius uncoveredPoints = Some bestCircle"
  then show "((h, maxRadius, removeCovered uncoveredPoints (points bestCircle), circles @ [bestCircle]),
              (h, maxRadius, uncoveredPoints, circles))
             \<in> measure (\<lambda>(h, maxRadius, uncoveredPoints, circles). length uncoveredPoints)"
    by (simp add: removeCovered_shrinks)
qed

declare coverLoop.simps [simp del]

definition computeMinimumCircles :: "store \<Rightarrow> ref list \<Rightarrow> jsnum \<Rightarrow> error + circle list" where
  "computeMinimumCircles h pts maxRadius = coverLoop h maxRadius pts []"

section \<open>The command's radius check\<close>




section \<open>Valid inputs, iteration states and example stores\<close>

text \<open>
  The inputs the specification calls valid: every point of the list has finite coordinates,
  and the radius is greater than zero (\<open>Infinity\<close> included). \<open>covers\<close> is the loop's own
  test \<open>distance <= maxRadius\<close>, read from the side of an emitted circle, with the circle's
  own radius.
\<close>

definition finiteCoordinates :: "store \<Rightarrow> ref list \<Rightarrow> bool" where
  "finiteCoordinates h pts =
     list_all (\<lambda>pt. isFinite (point_x (h pt)) \<and> isFinite (point_y (h pt))) pts"

definition positive :: "jsnum \<Rightarrow> bool" where
  "positive r = (case r of Fin a \<Rightarrow> 0 < a | PInf \<Rightarrow> True | NInf \<Rightarrow> False | NaN \<Rightarrow> False)"

definition covers :: "store \<Rightarrow> circle \<Rightarrow> ref \<Rightarrow> bool" where
  "covers h c pt = jle (distance h pt (center c)) (radius c)"

text \<open>
  The same \<open>while\<close> loop with a bound on the number of iterations: \<open>None\<close> when the
  bound is reached with points still uncovered.
\<close>

fun coverLoopN ::
  "nat \<Rightarrow> store \<Rightarrow> jsnum \<Rightarrow> ref list \<Rightarrow> circle list \<Rightarrow> (error + circle list) option" where
  "coverLoopN 0 h maxRadius uncoveredPoints circles =
     (if length uncoveredPoints > 0 then None else Some (Inr circles))"
| "coverLoopN (Suc n) h maxRadius uncoveredPoints circles =
     (if length uncoveredPoints > 0
      then (case bestCircleOf h maxRadius uncoveredPoints of
              None \<Rightarrow> Some (Inl TypeError)
            | Some bestCircle \<Rightarrow>
                coverLoopN n h maxRadius (removeCovered uncoveredPoints (points bestCircle))
                  (circles @ [bestCircle]))
      else Some (Inr circles))"

text \<open>
  The contents of \<open>uncoveredPoints\<close> when iteration \<open>i\<close> of the \<open>while\<close> loop starts,
  replayed from the input and the circles pushed before it.
\<close>

definition uncoveredBefore :: "ref list \<Rightarrow> circle list \<Rightarrow> nat \<Rightarrow> ref list" where
  "uncoveredBefore pts cs i = foldl (\<lambda>u c. removeCovered u (points c)) pts (take i cs)"


text \<open>
  What a consumer reads from a result: for every circle the coordinates of its center, its
  radius and the coordinates of the points it covered; the references themselves differ
  from one run to the next. \<open>stateView\<close> is the same reading of the scan's state.
\<close>

definition circleView :: "store \<Rightarrow> circle \<Rightarrow> point \<times> jsnum \<times> point list" where
  "circleView h c = (h (center c), radius c, map h (points c))"

definition coverView :: "store \<Rightarrow> error + circle list \<Rightarrow> error + (point \<times> jsnum \<times> point list) list" where
  "coverView h res = (case res of Inl e \<Rightarrow> Inl e | Inr cs \<Rightarrow> Inr (map (circleView h) cs))"

definition stateView :: "store \<Rightarrow> circle option \<times> nat \<Rightarrow> (point \<times> jsnum \<times> point list) option \<times> nat" where
  "stateView h st = (map_option (circleView h) (fst st), snd st)"

text \<open>
  Example stores: reference \<open>i\<close> is the \<open>i\<close>-th object of a list. One cluster, two
  clusters far apart, three objects with the same coordinates, a list with two objects whose
  coordinates are not finite, and the two clusters again as the objects of a second run.
\<close>

definition storeOf :: "point list \<Rightarrow> store" where
  "storeOf ps = (\<lambda>i. if i < length ps then ps ! i else Point NaN NaN)"

definition clusterStore :: store where
  "clusterStore = storeOf [Point (Fin 0) (Fin 0), Point (Fin 3) (Fin 4), Point (Fin 3) (Fin 5)]"

definition twoClusters :: store where
  "twoClusters = storeOf [Point (Fin 0) (Fin 0), Point (Fin 0) (Fin 1),
                          Point (Fin 100) (Fin 100), Point (Fin 100) (Fin 101)]"

definition duplicates :: store where
  "duplicates = storeOf [Point (Fin 5) (Fin 5), Point (Fin 5) (Fin 5), Point (Fin 5) (Fin 5)]"


definition twoClustersAgain :: store where
  "twoClustersAgain = (\<lambda>i. twoClusters (i - 10))"

section \<open>The loop, step by step\<close>

lemma coverLoop_empty: "coverLoop h r [] acc = Inr acc"
  by (simp add: coverLoop.simps)

lemma coverLoop_step:
  "u \<noteq> [] \<Longrightarrow> bestCircleOf h r u = Some c \<Longrightarrow>
   coverLoop h r u acc = coverLoop h r (removeCovered u (points c)) (acc @ [c])"
  by (subst coverLoop.simps) simp

lemma coverLoop_null:
  "u \<noteq> [] \<Longrightarrow> bestCircleOf h r u = None \<Longrightarrow> coverLoop h r u acc = Inl TypeError"
  by (subst coverLoop.simps) simp

lemma coverLoop_invariant:
  assumes "coverLoop h r u acc = Inr cs"
    and "I u acc"
    and "\<And>u acc c. u \<noteq> [] \<Longrightarrow> bestCircleOf h r u = Some c \<Longrightarrow> I u acc \<Longrightarrow>
           I (removeCovered u (points c)) (acc @ [c])"
  shows "I [] cs"
  using assms
proof (induction h r u acc rule: coverLoop.induct)
  case (1 h r u acc)
  show ?case
  proof (cases "u = []")
    case True
    with "1.prems" show ?thesis by (auto simp: coverLoop_empty)
  next
    case False
    show ?thesis
    proof (cases "bestCircleOf h r u")
      case None
      with False "1.prems" show ?thesis by (simp add: coverLoop_null)
    next
      case (Some c)
      have pos: "0 < length u" using False by simp
      have run: "coverLoop h r (removeCovered u (points c)) (acc @ [c]) = Inr cs"
        using "1.prems"(1) False Some by (simp add: coverLoop_step)
      have inv: "I (removeCovered u (points c)) (acc @ [c])"
        by (rule "1.prems"(3) [OF False Some "1.prems"(2)])
      show ?thesis
        by (rule "1.IH" [OF pos Some run inv "1.prems"(3)])
    qed
  qed
qed

lemma bestCircleOf_fields:
  assumes "bestCircleOf h r u = Some c"
  shows "center c \<in> set u" and "radius c = r" and "points c = coveredPoints h r u (center c)"
    and "points c \<noteq> []"
proof -
  from bestCircleOf_Some [OF assms] obtain i where
    i: "i < length u" and c: "c = circleAt h r u (u ! i)" and pos: "0 < coverCount h r u (u ! i)"
    by blast
  show "center c \<in> set u" using i c by (simp add: circleAt_def)
  show "radius c = r" using c by (simp add: circleAt_def)
  show "points c = coveredPoints h r u (center c)" using c by (simp add: circleAt_def)
  show "points c \<noteq> []" using c pos by (simp add: circleAt_def coverCount_def)
qed

lemma removeCovered_best:
  assumes "bestCircleOf h r u = Some c"
  shows "removeCovered u (points c) = filter (\<lambda>pt. \<not> covers h c pt) u"
  using bestCircleOf_fields(2,3) [OF assms]
  by (simp add: removeCovered_coveredPoints covers_def)

lemma sqrt_le_iff_square: "0 \<le> b \<Longrightarrow> sqrt a \<le> b \<longleftrightarrow> a \<le> b\<^sup>2"
  by (metis real_sqrt_le_iff real_sqrt_abs abs_of_nonneg)

lemmas run_defs =
  computeMinimumCircles_def coverLoop.simps bestCircleOf_def scanCandidates_def
  candidateStep_def coveredPoints_def distance_def removeCovered_def removePoint_def
  splice1_def Let_def

lemma clusterStore_run:
  "computeMinimumCircles clusterStore [0, 1, 2] (Fin 5) =
     Inr [\<lparr>center = 1, radius = Fin 5, points = [0, 1, 2]\<rparr>]"
  by (simp add: run_defs clusterStore_def storeOf_def sqrt_le_iff_square)

lemma self_distance:
  assumes "isFinite (point_x (h pt))" and "isFinite (point_y (h pt))"
  shows "distance h pt pt = Fin 0"
proof -
  obtain a b where "point_x (h pt) = Fin a" and "point_y (h pt) = Fin b"
    using assms by (metis isFinite.elims(2))
  then show ?thesis by (simp add: distance_def)
qed

lemma positive_zero_le: "positive r \<Longrightarrow> jle (Fin 0) r"
  by (cases r) (simp_all add: positive_def)

lemma valid_self_covered:
  assumes "finiteCoordinates h u" and "positive r" and "pt \<in> set u"
  shows "pt \<in> set (coveredPoints h r u pt)"
proof -
  have "isFinite (point_x (h pt))" and "isFinite (point_y (h pt))"
    using assms(1,3) by (simp_all add: finiteCoordinates_def list_all_iff)
  then have "distance h pt pt = Fin 0" by (rule self_distance)
  then show ?thesis
    using assms(2,3) by (simp add: coveredPoints_def positive_zero_le)
qed

lemma valid_bestCircleOf:
  assumes "finiteCoordinates h u" and "positive r" and "u \<noteq> []"
  shows "\<exists>c. bestCircleOf h r u = Some c"
proof (cases "bestCircleOf h r u")
  case None
  then have zero: "\<forall>pt\<in>set u. coverCount h r u pt = 0"
    by (simp add: bestCircleOf_None)
  have "hd u \<in> set u" using assms(3) by simp
  then have "hd u \<in> set (coveredPoints h r u (hd u))"
    using assms(1,2) by (simp add: valid_self_covered)
  then have "coverCount h r u (hd u) \<noteq> 0"
    by (auto simp: coverCount_def)
  moreover have "coverCount h r u (hd u) = 0"
    using zero \<open>hd u \<in> set u\<close> by (rule bspec)
  ultimately show ?thesis by simp
next
  case (Some c)
  then show ?thesis by blast
qed

lemma finiteCoordinates_filter:
  "finiteCoordinates h u \<Longrightarrow> finiteCoordinates h (filter P u)"
  by (simp add: finiteCoordinates_def list_all_iff)

lemma coverLoop_total:
  assumes "finiteCoordinates h u" and "positive r"
  shows "\<exists>cs. coverLoop h r u acc = Inr cs"
  using assms
proof (induction h r u acc rule: coverLoop.induct)
  case (1 h r u acc)
  show ?case
  proof (cases "u = []")
    case True
    then show ?thesis by (simp add: coverLoop_empty)
  next
    case False
    then obtain c where c: "bestCircleOf h r u = Some c"
      using valid_bestCircleOf "1.prems" by blast
    have pos: "0 < length u" using False by simp
    have "finiteCoordinates h (removeCovered u (points c))"
      using "1.prems"(1) by (simp add: removeCovered_best [OF c] finiteCoordinates_filter)
    then have "\<exists>cs. coverLoop h r (removeCovered u (points c)) (acc @ [c]) = Inr cs"
      by (rule "1.IH" [OF pos c _ "1.prems"(2)])
    then show ?thesis using False c by (simp add: coverLoop_step)
  qed
qed

lemma coverLoop_length:
  assumes "coverLoop h r u acc = Inr cs"
  shows "length cs \<le> length acc + length u \<and> (u \<noteq> [] \<or> acc \<noteq> [] \<longrightarrow> cs \<noteq> [])"
proof -
  let ?I = "\<lambda>(v::ref list) (a::circle list). length a + length v \<le> length acc + length u
              \<and> (u \<noteq> [] \<or> acc \<noteq> [] \<longrightarrow> v \<noteq> [] \<or> a \<noteq> [])"
  have "?I [] cs"
    using assms
  proof (rule coverLoop_invariant [where I = ?I])
    show "?I u acc" by simp
  next
    fix v and a :: "circle list" and c
    assume best: "bestCircleOf h r v = Some c" and inv: "?I v a"
    have "length (removeCovered v (points c)) < length v"
      using best by (rule removeCovered_shrinks)
    with inv show "?I (removeCovered v (points c)) (a @ [c])" by simp
  qed
  then show ?thesis by simp
qed

lemma coverLoopN_enough:
  "length u \<le> n \<Longrightarrow> coverLoopN n h r u acc = Some (coverLoop h r u acc)"
proof (induction h r u acc arbitrary: n rule: coverLoop.induct)
  case (1 h r u acc)
  show ?case
  proof (cases "u = []")
    case True
    then show ?thesis by (cases n) (simp_all add: coverLoop_empty)
  next
    case False
    then obtain m where n: "n = Suc m"
      using "1.prems" by (cases n) auto
    have pos: "0 < length u" using False by simp
    show ?thesis
    proof (cases "bestCircleOf h r u")
      case None
      with False n show ?thesis by (simp add: coverLoop_null)
    next
      case (Some c)
      have "length (removeCovered u (points c)) < length u"
        using Some by (rule removeCovered_shrinks)
      then have "length (removeCovered u (points c)) \<le> m"
        using "1.prems" n by simp
      then have "coverLoopN m h r (removeCovered u (points c)) (acc @ [c]) =
                   Some (coverLoop h r (removeCovered u (points c)) (acc @ [c]))"
        by (rule "1.IH" [OF pos Some])
      with False n Some show ?thesis by (simp add: coverLoop_step)
    qed
  qed
qed

lemma twoClusters_run:
  "computeMinimumCircles twoClusters [0, 1, 2, 3] (Fin 1) =
     Inr [\<lparr>center = 0, radius = Fin 1, points = [0, 1]\<rparr>,
          \<lparr>center = 2, radius = Fin 1, points = [2, 3]\<rparr>]"
  by (simp add: run_defs twoClusters_def storeOf_def sqrt_le_iff_square)

lemma twoClusters_valid: "finiteCoordinates twoClusters [0, 1, 2, 3]"
  by (simp add: finiteCoordinates_def twoClusters_def storeOf_def)

lemma removeCovered_subset: "set (removeCovered u ps) \<subseteq> set u"
proof (induction ps arbitrary: u)
  case Nil
  show ?case by (simp add: removeCovered_def)
next
  case (Cons p ps)
  have "removeCovered u (p # ps) = removeCovered (remove1 p u) ps"
    by (simp add: removeCovered_def removePoint_remove1)
  moreover have "set (removeCovered (remove1 p u) ps) \<subseteq> set (remove1 p u)"
    by (rule Cons.IH)
  moreover have "set (remove1 p u) \<subseteq> set u"
    by (rule set_remove1_subset)
  ultimately show ?case by simp
qed

lemma uncoveredBefore_subset: "set (uncoveredBefore pts cs i) \<subseteq> set pts"
proof (induction i)
  case 0
  show ?case by (simp add: uncoveredBefore_def)
next
  case (Suc i)
  show ?case
  proof (cases "i < length cs")
    case True
    then have "uncoveredBefore pts cs (Suc i) =
                 removeCovered (uncoveredBefore pts cs i) (points (cs ! i))"
      by (simp add: uncoveredBefore_def take_Suc_conv_app_nth)
    then show ?thesis using Suc removeCovered_subset by fastforce
  next
    case False
    then have "uncoveredBefore pts cs (Suc i) = uncoveredBefore pts cs i"
      by (simp add: uncoveredBefore_def)
    then show ?thesis using Suc by simp
  qed
qed

lemma coverLoop_trace:
  assumes "computeMinimumCircles h pts r = Inr cs"
  shows "\<forall>i<length cs. bestCircleOf h r (uncoveredBefore pts cs i) = Some (cs ! i)"
proof -
  let ?I = "\<lambda>(u::ref list) (acc::circle list).
              u = uncoveredBefore pts acc (length acc)
              \<and> (\<forall>i<length acc. bestCircleOf h r (uncoveredBefore pts acc i) = Some (acc ! i))"
  have "coverLoop h r pts [] = Inr cs"
    using assms by (simp add: computeMinimumCircles_def)
  then have "?I [] cs"
  proof (rule coverLoop_invariant [where I = ?I])
    show "?I pts []" by (simp add: uncoveredBefore_def)
  next
    fix u and acc :: "circle list" and c
    assume best: "bestCircleOf h r u = Some c" and inv: "?I u acc"
    have "removeCovered u (points c) = uncoveredBefore pts (acc @ [c]) (length (acc @ [c]))"
      using inv by (simp add: uncoveredBefore_def)
    moreover have "bestCircleOf h r (uncoveredBefore pts (acc @ [c]) i) = Some ((acc @ [c]) ! i)"
      if "i < length (acc @ [c])" for i
    proof (cases "i < length acc")
      case True
      then show ?thesis using inv by (simp add: uncoveredBefore_def nth_append)
    next
      case False
      with that have "i = length acc" by simp
      then show ?thesis using inv best by (simp add: uncoveredBefore_def)
    qed
    ultimately show "?I (removeCovered u (points c)) (acc @ [c])" by blast
  qed
  then show ?thesis by simp
qed

lemma coverCount_filter_le:
  "coverCount h r (filter P u) c \<le> coverCount h r u c"
proof -
  have "filter (\<lambda>pt. jle (distance h pt c) r) (filter P u)
          = filter P (filter (\<lambda>pt. jle (distance h pt c) r) u)"
    by (simp add: conj_commute)
  then show ?thesis
    by (simp add: coverCount_def coveredPoints_def del: filter_filter)
qed

lemma bestCircleOf_max:
  assumes "bestCircleOf h r u = Some c" and "pt \<in> set u"
  shows "coverCount h r u pt \<le> length (points c)"
proof -
  from bestCircleOf_Some [OF assms(1)] obtain i where
    c: "c = circleAt h r u (u ! i)"
    and best: "\<forall>j<length u. coverCount h r u (u ! j) \<le> coverCount h r u (u ! i)"
    by blast
  obtain j where "j < length u" and "u ! j = pt"
    using assms(2) by (auto simp: in_set_conv_nth)
  then have "coverCount h r u pt \<le> coverCount h r u (u ! i)"
    using best by auto
  then show ?thesis using c by (simp add: circleAt_def coverCount_def)
qed

lemma populated_run:
  "computeMinimumCircles clusterStore [0, 1, 2] (Fin 1) =
     Inr [\<lparr>center = 1, radius = Fin 1, points = [1, 2]\<rparr>,
          \<lparr>center = 0, radius = Fin 1, points = [0]\<rparr>]"
  by (simp add: run_defs clusterStore_def storeOf_def sqrt_le_iff_square)

lemma duplicates_run:
  "computeMinimumCircles duplicates [0, 1, 2] (Fin 1) =
     Inr [\<lparr>center = 0, radius = Fin 1, points = [0, 1, 2]\<rparr>]"
  by (simp add: run_defs duplicates_def storeOf_def)

lemma count_list_remove1:
  "count_list (remove1 pt u) q = (if q = pt then count_list u q - 1 else count_list u q)"
  by (induction u) auto

subsection \<open>Coordinates that are not finite\<close>








subsection \<open>Two runs on the same coordinates\<close>

lemma distance_values:
  "h pt = h' pt' \<Longrightarrow> h c = h' c' \<Longrightarrow> distance h pt c = distance h' pt' c'"
  by (simp add: distance_def)

lemma filter_values:
  assumes "map f xs = map g ys" and "\<And>x y. f x = g y \<Longrightarrow> P x = Q y"
  shows "map f (filter P xs) = map g (filter Q ys)"
  using assms(1)
proof (induction xs arbitrary: ys)
  case Nil
  then show ?case by simp
next
  case (Cons x xs)
  then obtain y ys' where ys: "ys = y # ys'" and hd: "f x = g y" and tl: "map f xs = map g ys'"
    by (cases ys) auto
  have "P x = Q y" using hd by (rule assms(2))
  then show ?case using ys hd Cons.IH [OF tl] by simp
qed

lemma coveredPoints_values:
  assumes "map h u = map h' u'" and "h c = h' c'"
  shows "map h (coveredPoints h r u c) = map h' (coveredPoints h' r u' c')"
  unfolding coveredPoints_def using assms(1)
proof (rule filter_values)
  fix x y
  assume "h x = h' y"
  then show "jle (distance h x c) r = jle (distance h' y c') r"
    using distance_values [of h x h' y c c'] assms(2) by simp
qed

lemma candidateStep_values:
  assumes "map h u = map h' u'" and "h c = h' c'" and "stateView h st = stateView h' st'"
  shows "stateView h (candidateStep h r u st c) = stateView h' (candidateStep h' r u' st' c')"
proof -
  have cov: "map h (coveredPoints h r u c) = map h' (coveredPoints h' r u' c')"
    using assms(1,2) by (rule coveredPoints_values)
  then have "length (coveredPoints h r u c) = length (coveredPoints h' r u' c')"
    by (rule map_eq_imp_length_eq)
  moreover have "snd st = snd st'"
    using assms(3) by (simp add: stateView_def)
  ultimately show ?thesis
    using assms(2,3) cov by (simp add: candidateStep_def Let_def stateView_def circleView_def)
qed

lemma scan_values:
  assumes "map h u = map h' u'"
  shows "map h cands = map h' cands' \<Longrightarrow> stateView h st = stateView h' st' \<Longrightarrow>
         stateView h (foldl (candidateStep h r u) st cands)
           = stateView h' (foldl (candidateStep h' r u') st' cands')"
proof (induction cands arbitrary: cands' st st')
  case Nil
  then show ?case by simp
next
  case (Cons c cs)
  then obtain c' cs' where cands': "cands' = c' # cs'" and hd: "h c = h' c'"
    and tl: "map h cs = map h' cs'"
    by (cases cands') auto
  have "stateView h (candidateStep h r u st c) = stateView h' (candidateStep h' r u' st' c')"
    using assms hd Cons.prems(2) by (rule candidateStep_values)
  then show ?case using cands' Cons.IH [OF tl] by simp
qed

lemma bestCircleOf_values:
  assumes "map h u = map h' u'"
  shows "map_option (circleView h) (bestCircleOf h r u)
           = map_option (circleView h') (bestCircleOf h' r u')"
proof -
  have "stateView h (None, 0) = stateView h' (None, 0)"
    by (simp add: stateView_def)
  then have "stateView h (scanCandidates h r u) = stateView h' (scanCandidates h' r u')"
    unfolding scanCandidates_def by (rule scan_values [OF assms assms])
  then show ?thesis by (simp add: bestCircleOf_def stateView_def)
qed

lemma removeCovered_values:
  assumes "map h u = map h' u'" and "bestCircleOf h r u = Some c"
    and "bestCircleOf h' r u' = Some c'" and "circleView h c = circleView h' c'"
  shows "map h (removeCovered u (points c)) = map h' (removeCovered u' (points c'))"
  unfolding removeCovered_best [OF assms(2)] removeCovered_best [OF assms(3)]
  using assms(1)
proof (rule filter_values)
  fix x y
  assume "h x = h' y"
  moreover have "h (center c) = h' (center c')" and "radius c = radius c'"
    using assms(4) by (simp_all add: circleView_def)
  ultimately show "(\<not> covers h c x) = (\<not> covers h' c' y)"
    using distance_values [of h x h' y "center c" "center c'"] by (simp add: covers_def)
qed

lemma coverLoop_values:
  "map h u = map h' u' \<Longrightarrow> map (circleView h) acc = map (circleView h') acc' \<Longrightarrow>
   coverView h (coverLoop h r u acc) = coverView h' (coverLoop h' r u' acc')"
proof (induction h r u acc arbitrary: u' acc' rule: coverLoop.induct)
  case (1 h r u acc)
  have len: "length u = length u'"
    using "1.prems"(1) by (rule map_eq_imp_length_eq)
  show ?case
  proof (cases "u = []")
    case True
    then have "u' = []" using len by simp
    with True "1.prems"(2) show ?thesis by (simp add: coverLoop_empty coverView_def)
  next
    case False
    then have ne': "u' \<noteq> []" using len by auto
    have pos: "0 < length u" using False by simp
    have best: "map_option (circleView h) (bestCircleOf h r u)
                  = map_option (circleView h') (bestCircleOf h' r u')"
      using "1.prems"(1) by (rule bestCircleOf_values)
    show ?thesis
    proof (cases "bestCircleOf h r u")
      case None
      then have "bestCircleOf h' r u' = None" using best by simp
      with None False ne' show ?thesis by (simp add: coverLoop_null coverView_def)
    next
      case (Some c)
      then obtain c' where c': "bestCircleOf h' r u' = Some c'"
        and view: "circleView h c = circleView h' c'"
        using best by (cases "bestCircleOf h' r u'") auto
      have u2: "map h (removeCovered u (points c)) = map h' (removeCovered u' (points c'))"
        using "1.prems"(1) Some c' view by (rule removeCovered_values)
      have acc2: "map (circleView h) (acc @ [c]) = map (circleView h') (acc' @ [c'])"
        using "1.prems"(2) view by simp
      have "coverView h (coverLoop h r (removeCovered u (points c)) (acc @ [c]))
              = coverView h' (coverLoop h' r (removeCovered u' (points c')) (acc' @ [c']))"
        by (rule "1.IH" [OF pos Some u2 acc2])
      then show ?thesis
        using False ne' Some c' by (simp add: coverLoop_step)
    qed
  qed
qed

section \<open>Properties of computeMinimumCircles\<close>








text \<open>
  C4 (center validity, candidate restriction): the center of the \<open>i\<close>-th returned circle
  is an element of the uncovered list as it was when that circle was chosen, hence one of the
  input points, with that point's coordinates.
\<close>

theorem center_validity:
  assumes "computeMinimumCircles h pts maxRadius = Inr cs"
  shows "\<forall>i<length cs. center (cs ! i) \<in> set (uncoveredBefore pts cs i)
                       \<and> center (cs ! i) \<in> set pts
                       \<and> h (center (cs ! i)) \<in> h ` set pts"
proof (intro allI impI)
  fix i
  assume "i < length cs"
  then have "bestCircleOf h maxRadius (uncoveredBefore pts cs i) = Some (cs ! i)"
    using coverLoop_trace [OF assms] by blast
  then have "center (cs ! i) \<in> set (uncoveredBefore pts cs i)"
    by (rule bestCircleOf_fields(1))
  moreover have "set (uncoveredBefore pts cs i) \<subseteq> set pts"
    by (rule uncoveredBefore_subset)
  ultimately show "center (cs ! i) \<in> set (uncoveredBefore pts cs i)
                   \<and> center (cs ! i) \<in> set pts \<and> h (center (cs ! i)) \<in> h ` set pts"
    by blast
qed

theorem center_validity_witness:
  "computeMinimumCircles twoClusters [0, 1, 2, 3] (Fin 1) =
     Inr [\<lparr>center = 0, radius = Fin 1, points = [0, 1]\<rparr>,
          \<lparr>center = 2, radius = Fin 1, points = [2, 3]\<rparr>]
   \<and> uncoveredBefore [0, 1, 2, 3]
        [\<lparr>center = 0, radius = Fin 1, points = [0, 1]\<rparr>,
         \<lparr>center = 2, radius = Fin 1, points = [2, 3]\<rparr>] 1 = [2, 3]
   \<and> (2::nat) \<in> set (uncoveredBefore [0, 1, 2, 3]
        [\<lparr>center = 0, radius = Fin 1, points = [0, 1]\<rparr>,
         \<lparr>center = 2, radius = Fin 1, points = [2, 3]\<rparr>] 1)
   \<and> (2::nat) \<in> set [0, 1, 2, 3]"
proof -
  have "uncoveredBefore [0, 1, 2, 3]
        [\<lparr>center = 0, radius = Fin 1, points = [0, 1]\<rparr>,
         \<lparr>center = 2, radius = Fin 1, points = [2, 3]\<rparr>] 1 = [2, 3]"
    by (simp add: uncoveredBefore_def removeCovered_def removePoint_def splice1_def)
  then show ?thesis
    using center_validity [OF twoClusters_run] twoClusters_run by simp
qed

text \<open>
  C5 (duplicates, by identity): for the three objects at \<open>(5, 5)\<close> and radius 1 the result
  is one circle, centered on the first object, that covered all three. In general the size of
  a chosen circle's covered subset is the number of positions of the uncovered list within
  the radius of the center, so every occurrence counts; removing a reference takes away one
  occurrence of that reference and none of any other reference, whatever its coordinates;
  and what the removal of the covered subset leaves is every occurrence the circle does not
  cover.
\<close>

theorem duplicates_by_identity:
  "computeMinimumCircles duplicates [0, 1, 2] (Fin 1) =
     Inr [\<lparr>center = 0, radius = Fin 1, points = [0, 1, 2]\<rparr>]
   \<and> duplicates 0 = Point (Fin 5) (Fin 5)
   \<and> length (points \<lparr>center = 0, radius = Fin 1, points = [0, 1, 2]\<rparr>) = 3
   \<and> (bestCircleOf h maxRadius u = Some c \<longrightarrow>
        length (points c) = card {j. j < length u \<and> jle (distance h (u ! j) (center c)) maxRadius})
   \<and> count_list (removePoint u pt) q = (if q = pt then count_list u q - 1 else count_list u q)
   \<and> (bestCircleOf h maxRadius u = Some c \<longrightarrow>
        removeCovered u (points c) = filter (\<lambda>pt. \<not> covers h c pt) u)"
proof (intro conjI impI)
  show "computeMinimumCircles duplicates [0, 1, 2] (Fin 1) =
          Inr [\<lparr>center = 0, radius = Fin 1, points = [0, 1, 2]\<rparr>]"
    by (rule duplicates_run)
  show "duplicates 0 = Point (Fin 5) (Fin 5)"
    by (simp add: duplicates_def storeOf_def)
  show "length (points \<lparr>center = 0, radius = Fin 1, points = [0, 1, 2]\<rparr>) = 3"
    by simp
  show "count_list (removePoint u pt) q = (if q = pt then count_list u q - 1 else count_list u q)"
    by (simp only: removePoint_remove1 count_list_remove1)
next
  assume best: "bestCircleOf h maxRadius u = Some c"
  then have "points c = filter (\<lambda>pt. jle (distance h pt (center c)) maxRadius) u"
    using bestCircleOf_fields(3) by (simp add: coveredPoints_def)
  then show "length (points c) = card {j. j < length u \<and> jle (distance h (u ! j) (center c)) maxRadius}"
    by (simp add: length_filter_conv_card)
next
  assume "bestCircleOf h maxRadius u = Some c"
  then show "removeCovered u (points c) = filter (\<lambda>pt. \<not> covers h c pt) u"
    by (rule removeCovered_best)
qed

theorem duplicates_by_identity_witness:
  "bestCircleOf duplicates (Fin 1) [0, 1, 2] = Some \<lparr>center = 0, radius = Fin 1, points = [0, 1, 2]\<rparr>
   \<and> card {j. j < length [0::nat, 1, 2] \<and> jle (distance duplicates ([0, 1, 2] ! j) 0) (Fin 1)} = 3
   \<and> count_list (removePoint [0, 1, 2] 0) 1 = 1
   \<and> removeCovered [0, 1, 2] [0, 1, 2] = []"
proof -
  have best: "bestCircleOf duplicates (Fin 1) [0, 1, 2] =
                Some \<lparr>center = 0, radius = Fin 1, points = [0, 1, 2]\<rparr>"
    by (simp add: run_defs duplicates_def storeOf_def)
  note inst = duplicates_by_identity
      [of duplicates "Fin 1" "[0, 1, 2]" "\<lparr>center = 0, radius = Fin 1, points = [0, 1, 2]\<rparr>" 0 1]
  have c1: "card {j. j < length [0::nat, 1, 2] \<and> jle (distance duplicates ([0, 1, 2] ! j) 0) (Fin 1)} = 3"
    using inst best by simp
  have c2: "count_list (removePoint [0, 1, 2] 0) 1 = 1"
    using inst by simp
  have c3: "removeCovered [0, 1, 2] [0, 1, 2] = []"
    using inst best by (simp add: covers_def distance_def duplicates_def storeOf_def)
  from best c1 c2 c3 show ?thesis by (intro conjI)
qed

text \<open>
  C6 (boundedness, empty input): an empty input gives the empty cover, without error; a valid
  input gives at most as many circles as it has points, and at least one when it is not
  empty.
\<close>

theorem boundedness:
  "computeMinimumCircles h [] maxRadius = Inr []
   \<and> (finiteCoordinates h pts \<and> positive maxRadius \<longrightarrow>
        (\<exists>cs. computeMinimumCircles h pts maxRadius = Inr cs
              \<and> length cs \<le> length pts \<and> (pts \<noteq> [] \<longrightarrow> 1 \<le> length cs)))"
proof (intro conjI impI)
  show "computeMinimumCircles h [] maxRadius = Inr []"
    by (simp add: computeMinimumCircles_def coverLoop_empty)
next
  assume "finiteCoordinates h pts \<and> positive maxRadius"
  then obtain cs where run: "coverLoop h maxRadius pts [] = Inr cs"
    using coverLoop_total by blast
  have "length cs \<le> length pts \<and> (pts \<noteq> [] \<longrightarrow> cs \<noteq> [])"
    using coverLoop_length [OF run] by simp
  then have "length cs \<le> length pts \<and> (pts \<noteq> [] \<longrightarrow> 1 \<le> length cs)"
    by (cases cs) auto
  then show "\<exists>cs. computeMinimumCircles h pts maxRadius = Inr cs
              \<and> length cs \<le> length pts \<and> (pts \<noteq> [] \<longrightarrow> 1 \<le> length cs)"
    using run by (simp add: computeMinimumCircles_def)
qed

theorem boundedness_witness:
  "finiteCoordinates twoClusters [0, 1, 2, 3] \<and> positive (Fin 1)
   \<and> computeMinimumCircles twoClusters [] (Fin 1) = Inr []
   \<and> (\<exists>cs. computeMinimumCircles twoClusters [0, 1, 2, 3] (Fin 1) = Inr cs
            \<and> length cs \<le> length [0::nat, 1, 2, 3] \<and> 1 \<le> length cs)"
proof -
  have r: "positive (Fin 1)" by (simp add: positive_def)
  show ?thesis
    using boundedness [of twoClusters "Fin 1" "[0, 1, 2, 3]"] twoClusters_valid r by simp
qed

text \<open>
  C7 (termination): on a valid input the loop ends, returning the circles, within as many
  iterations as there are input points; in every iteration on a non-empty list of input
  points the chosen center covers itself and the removal makes the uncovered list strictly
  shorter.
\<close>

theorem termination_bound:
  assumes "finiteCoordinates h pts" and "positive maxRadius"
  shows "(\<exists>cs. computeMinimumCircles h pts maxRadius = Inr cs
              \<and> coverLoopN (length pts) h maxRadius pts [] = Some (Inr cs))
         \<and> (\<forall>u. u \<noteq> [] \<and> set u \<subseteq> set pts \<longrightarrow>
               (\<exists>c. bestCircleOf h maxRadius u = Some c
                    \<and> center c \<in> set (points c)
                    \<and> length (removeCovered u (points c)) < length u))"
proof (intro conjI allI impI)
  obtain cs where run: "coverLoop h maxRadius pts [] = Inr cs"
    using coverLoop_total [OF assms] by blast
  have "coverLoopN (length pts) h maxRadius pts [] = Some (coverLoop h maxRadius pts [])"
    by (rule coverLoopN_enough) simp
  then show "\<exists>cs. computeMinimumCircles h pts maxRadius = Inr cs
              \<and> coverLoopN (length pts) h maxRadius pts [] = Some (Inr cs)"
    using run by (simp add: computeMinimumCircles_def)
next
  fix u :: "ref list"
  assume u: "u \<noteq> [] \<and> set u \<subseteq> set pts"
  then have fin: "finiteCoordinates h u"
    using assms(1) by (auto simp: finiteCoordinates_def list_all_iff)
  then obtain c where c: "bestCircleOf h maxRadius u = Some c"
    using valid_bestCircleOf assms(2) u by blast
  have "center c \<in> set u"
    using c by (rule bestCircleOf_fields(1))
  then have "center c \<in> set (coveredPoints h maxRadius u (center c))"
    using fin assms(2) by (simp add: valid_self_covered)
  then have "center c \<in> set (points c)"
    using bestCircleOf_fields(3) [OF c] by simp
  moreover have "length (removeCovered u (points c)) < length u"
    using c by (rule removeCovered_shrinks)
  ultimately show "\<exists>c. bestCircleOf h maxRadius u = Some c
                    \<and> center c \<in> set (points c)
                    \<and> length (removeCovered u (points c)) < length u"
    using c by blast
qed

theorem termination_bound_witness:
  "finiteCoordinates twoClusters [0, 1, 2, 3] \<and> positive (Fin 1)
   \<and> (\<exists>cs. computeMinimumCircles twoClusters [0, 1, 2, 3] (Fin 1) = Inr cs
            \<and> coverLoopN (length [0::nat, 1, 2, 3]) twoClusters (Fin 1) [0, 1, 2, 3] [] = Some (Inr cs))
   \<and> (\<exists>c. bestCircleOf twoClusters (Fin 1) [2, 3] = Some c
          \<and> center c \<in> set (points c)
          \<and> length (removeCovered [2, 3] (points c)) < length [2::nat, 3])"
proof -
  have r: "positive (Fin 1)" by (simp add: positive_def)
  have "[2::nat, 3] \<noteq> [] \<and> set [2::nat, 3] \<subseteq> set [0, 1, 2, 3]" by simp
  then show ?thesis
    using termination_bound [OF twoClusters_valid r] twoClusters_valid r by blast
qed

text \<open>
  C8 (fixed radius): every circle of the returned sequence has its \<open>radius\<close> field equal
  to the \<open>maxRadius\<close> passed in.
\<close>

theorem fixed_radius:
  assumes "computeMinimumCircles h pts maxRadius = Inr cs"
  shows "\<forall>c\<in>set cs. radius c = maxRadius"
proof -
  have "coverLoop h maxRadius pts [] = Inr cs"
    using assms by (simp add: computeMinimumCircles_def)
  then show ?thesis
  proof (rule coverLoop_invariant [where I = "\<lambda>u acc. \<forall>c\<in>set acc. radius c = maxRadius"])
    show "\<forall>c\<in>set []. radius c = maxRadius" by simp
  next
    fix u and acc :: "circle list" and c
    assume "bestCircleOf h maxRadius u = Some c" and "\<forall>c\<in>set acc. radius c = maxRadius"
    then show "\<forall>c\<in>set (acc @ [c]). radius c = maxRadius"
      using bestCircleOf_fields(2) by auto
  qed
qed

theorem fixed_radius_witness:
  "computeMinimumCircles clusterStore [0, 1, 2] (Fin 5) =
     Inr [\<lparr>center = 1, radius = Fin 5, points = [0, 1, 2]\<rparr>]
   \<and> radius \<lparr>center = 1, radius = Fin 5, points = [0, 1, 2]\<rparr> = Fin 5"
  using fixed_radius [OF clusterStore_run] clusterStore_run by simp

text \<open>
  C9 (non-increasing coverage counts): for two circles at positions \<open>i < j\<close> of the
  returned sequence, the circle at \<open>i\<close> covered at least as many points when it was chosen
  as the circle at \<open>j\<close> did.
\<close>

theorem coverage_counts_nonincreasing:
  assumes "computeMinimumCircles h pts maxRadius = Inr cs" and "i < j" and "j < length cs"
  shows "length (points (cs ! j)) \<le> length (points (cs ! i))"
proof -
  let ?I = "\<lambda>(u::ref list) (acc::circle list).
              sorted_wrt (\<lambda>a b. length (points b) \<le> length (points a)) acc
              \<and> (\<forall>a\<in>set acc. \<forall>pt\<in>set u. coverCount h maxRadius u pt \<le> length (points a))"
  have "coverLoop h maxRadius pts [] = Inr cs"
    using assms(1) by (simp add: computeMinimumCircles_def)
  then have "?I [] cs"
  proof (rule coverLoop_invariant [where I = ?I])
    show "?I pts []" by simp
  next
    fix u and acc :: "circle list" and c
    assume ne: "u \<noteq> []" and best: "bestCircleOf h maxRadius u = Some c" and inv: "?I u acc"
    let ?u' = "removeCovered u (points c)"
    have u': "?u' = filter (\<lambda>pt. \<not> covers h c pt) u"
      by (rule removeCovered_best [OF best])
    have center: "center c \<in> set u"
      using best by (rule bestCircleOf_fields(1))
    have count: "length (points c) = coverCount h maxRadius u (center c)"
      using bestCircleOf_fields(3) [OF best] by (simp add: coverCount_def)
    have older: "length (points c) \<le> length (points a)" if "a \<in> set acc" for a
      using inv that center count by auto
    have shrink: "coverCount h maxRadius ?u' pt \<le> coverCount h maxRadius u pt" for pt
      unfolding u' by (rule coverCount_filter_le)
    have below: "coverCount h maxRadius ?u' pt \<le> length (points a)"
      if "a \<in> set (acc @ [c])" and "pt \<in> set ?u'" for a pt
    proof -
      have pt: "pt \<in> set u" using that(2) u' by simp
      show ?thesis
      proof (cases "a = c")
        case True
        then show ?thesis
          using bestCircleOf_max [OF best pt] shrink [of pt] by simp
      next
        case False
        with that(1) have "a \<in> set acc" by simp
        then have "coverCount h maxRadius u pt \<le> length (points a)"
          using inv pt by blast
        then show ?thesis using shrink [of pt] by simp
      qed
    qed
    have "sorted_wrt (\<lambda>a b. length (points b) \<le> length (points a)) (acc @ [c])"
      using inv older by (simp add: sorted_wrt_append)
    then show "?I ?u' (acc @ [c])"
      using below by blast
  qed
  then have "sorted_wrt (\<lambda>a b. length (points b) \<le> length (points a)) cs"
    by simp
  then show ?thesis
    using assms(2,3) by (simp add: sorted_wrt_iff_nth_less)
qed

theorem coverage_counts_nonincreasing_witness:
  "computeMinimumCircles clusterStore [0, 1, 2] (Fin 1) =
     Inr [\<lparr>center = 1, radius = Fin 1, points = [1, 2]\<rparr>,
          \<lparr>center = 0, radius = Fin 1, points = [0]\<rparr>]
   \<and> (0::nat) < 1
   \<and> 1 < length [\<lparr>center = 1, radius = Fin 1, points = [1, 2]\<rparr>,
                  \<lparr>center = 0, radius = Fin 1, points = [0::nat]\<rparr>]
   \<and> length (points ([\<lparr>center = 1, radius = Fin 1, points = [1, 2]\<rparr>,
                       \<lparr>center = 0, radius = Fin 1, points = [0::nat]\<rparr>] ! 1))
       \<le> length (points ([\<lparr>center = 1, radius = Fin 1, points = [1, 2]\<rparr>,
                           \<lparr>center = 0, radius = Fin 1, points = [0::nat]\<rparr>] ! 0))"
proof -
  have a: "(0::nat) < 1" by simp
  have b: "1 < length [\<lparr>center = 1, radius = Fin 1, points = [1, 2]\<rparr>,
                       \<lparr>center = 0, radius = Fin 1, points = [0::nat]\<rparr>]"
    by simp
  show ?thesis
    using coverage_counts_nonincreasing [OF populated_run a b] populated_run a b
    by (intro conjI)
qed

text \<open>
  C10 (determinism): two runs on the same sequence of coordinates with the same radius, also
  on different objects, give the same outcome: the same error, or circle sequences that agree
  position by position in the center's coordinates, the radius and the covered coordinates.
\<close>

theorem determinism:
  assumes "map h pts = map h' pts'"
  shows "coverView h (computeMinimumCircles h pts maxRadius)
           = coverView h' (computeMinimumCircles h' pts' maxRadius)"
  unfolding computeMinimumCircles_def using assms by (rule coverLoop_values) simp

theorem determinism_witness:
  "map twoClusters [0, 1, 2, 3] = map twoClustersAgain [10, 11, 12, 13]
   \<and> coverView twoClustersAgain (computeMinimumCircles twoClustersAgain [10, 11, 12, 13] (Fin 1))
       = Inr [(Point (Fin 0) (Fin 0), Fin 1, [Point (Fin 0) (Fin 0), Point (Fin 0) (Fin 1)]),
              (Point (Fin 100) (Fin 100), Fin 1,
               [Point (Fin 100) (Fin 100), Point (Fin 100) (Fin 101)])]"
proof -
  have same: "map twoClusters [0, 1, 2, 3] = map twoClustersAgain [10, 11, 12, 13]"
    by (simp add: twoClustersAgain_def)
  have "coverView twoClusters (computeMinimumCircles twoClusters [0, 1, 2, 3] (Fin 1))
          = Inr [(Point (Fin 0) (Fin 0), Fin 1, [Point (Fin 0) (Fin 0), Point (Fin 0) (Fin 1)]),
                 (Point (Fin 100) (Fin 100), Fin 1,
                  [Point (Fin 100) (Fin 100), Point (Fin 100) (Fin 101)])]"
    unfolding twoClusters_run
    by (simp add: coverView_def circleView_def twoClusters_def storeOf_def)
  then show ?thesis
    using determinism [OF same, of "Fin 1"] same by simp
qed

end
